theory Spec2Isabelle
  imports Main
begin

section \<open>The string language of \<^verbatim>\<open>string_compress.py\<close>\<close>

text \<open>
  The source builds its syntax trees as \<^verbatim>\<open>StringTree(content, name, child)\<close> with
  \<^verbatim>\<open>name\<close> one of the three tags \<^verbatim>\<open>'terminal'\<close>, \<^verbatim>\<open>'repeat'\<close>, \<^verbatim>\<open>'group'\<close>.
  The only places that construct a node are \<^verbatim>\<open>initial\<close> (a one-character string, tag
  \<^verbatim>\<open>'terminal'\<close>, child \<^verbatim>\<open>None\<close>), \<^verbatim>\<open>repeat\<close> (an integer, tag \<^verbatim>\<open>'repeat'\<close>, a tree)
  and \<^verbatim>\<open>group\<close> (a one-character string, tag \<^verbatim>\<open>'group'\<close>, a tree). The tag is the
  constructor; the content has the type that the tag's construction site gives it.
  Python integers are unbounded, hence \<open>int\<close>.
\<close>

datatype StringTree =
    Terminal char
  | Repeat int StringTree
  | Group char StringTree

text \<open>
  \<^verbatim>\<open>StringLanguage.__init__\<close> stores \<^verbatim>\<open>terminals\<close> and \<^verbatim>\<open>nums\<close>; \<^verbatim>\<open>rules\<close> is the fixed
  list of the two bound methods and is the function \<open>rules\<close> below.
\<close>

record StringLanguage =
  terminals :: string
  nums :: "int list"

definition StringLanguage_init :: StringLanguage where
  "StringLanguage_init = \<lparr>terminals = ''abc'', nums = [2, 3, 4]\<rparr>"

subsection \<open>Python string primitives used by the source\<close>

text \<open>\<^verbatim>\<open>n * s\<close> for an integer and a string: the empty string when \<open>n \<le> 0\<close>.\<close>

fun str_repeat :: "nat \<Rightarrow> string \<Rightarrow> string" where
  "str_repeat 0 s = []"
| "str_repeat (Suc k) s = s @ str_repeat k s"

definition py_int_mul_str :: "int \<Rightarrow> string \<Rightarrow> string" where
  "py_int_mul_str n s = (if n \<le> 0 then [] else str_repeat (nat n) s)"

text \<open>\<^verbatim>\<open>str(n)\<close> for an integer, as the f-string \<^verbatim>\<open>f'{node.content}'\<close> formats it.\<close>

definition digit_char :: "nat \<Rightarrow> char" where
  "digit_char d = ''0123456789'' ! (d mod 10)"

fun str_nat :: "nat \<Rightarrow> string" where
  "str_nat n = (if n < 10 then [digit_char n] else str_nat (n div 10) @ [digit_char (n mod 10)])"

declare str_nat.simps [simp del]

definition py_str_int :: "int \<Rightarrow> string" where
  "py_str_int n = (if n < 0 then CHR ''-'' # str_nat (nat (- n)) else str_nat (nat n))"

subsection \<open>Rules, initial programs and the generator\<close>

definition repeat :: "StringLanguage \<Rightarrow> StringTree \<Rightarrow> StringTree list" where
  "repeat L expr = map (\<lambda>num. Repeat num expr) (nums L)"

definition group :: "StringLanguage \<Rightarrow> StringTree \<Rightarrow> StringTree list" where
  "group L expr = map (\<lambda>term. Group term expr) (terminals L)"

definition rules :: "StringLanguage \<Rightarrow> (StringTree \<Rightarrow> StringTree list) list" where
  "rules L = [repeat L, group L]"

definition initial :: "StringLanguage \<Rightarrow> StringTree list" where
  "initial L = map (\<lambda>term. Terminal term) (terminals L)"

fun grow :: "StringLanguage \<Rightarrow> StringTree list \<Rightarrow> StringTree list" where
  "grow L [] = []"
| "grow L (program # programs) =
     (program # concat (map (\<lambda>rule. rule program) (rules L))) @ grow L programs"

subsection \<open>Interpreter and renderer\<close>

text \<open>
  \<^verbatim>\<open>StringLanguage.interpret\<close> is \<open>interpret_node\<close> here (\<open>interpret\<close> is a command of
  Isabelle). Both methods read no field of the language, so they take the node only.
\<close>

fun interpret_node :: "StringTree \<Rightarrow> string" where
  "interpret_node (Terminal content) = [content]"
| "interpret_node (Repeat content child) = py_int_mul_str content (interpret_node child)"
| "interpret_node (Group content child) = [content] @ interpret_node child"

fun render :: "StringTree \<Rightarrow> string" where
  "render (Terminal content) = [content]"
| "render (Repeat content child) = py_str_int content @ ''('' @ render child @ '')''"
| "render (Group content child) = [content] @ ''('' @ render child @ '')''"

subsection \<open>Equivalence filter\<close>

text \<open>
  The generator body of \<^verbatim>\<open>filter_observationally_equivalent\<close>, with the local set
  \<^verbatim>\<open>seen\<close> passed explicitly. The function itself starts it at the empty set on every call.
\<close>

fun filter_loop :: "string set \<Rightarrow> StringTree list \<Rightarrow> StringTree list" where
  "filter_loop seen [] = []"
| "filter_loop seen (program # programs) =
     (let output = interpret_node program
      in if output \<notin> seen
         then program # filter_loop (insert output seen) programs
         else filter_loop seen programs)"

definition filter_observationally_equivalent ::
  "StringLanguage \<Rightarrow> StringTree list \<Rightarrow> 'i \<Rightarrow> StringTree list" where
  "filter_observationally_equivalent language programs inputs = filter_loop {} programs"

subsection \<open>Search driver\<close>

text \<open>
  The \<^verbatim>\<open>while True\<close> loop of \<^verbatim>\<open>bottom_up_explicit\<close> on its variable \<^verbatim>\<open>programs\<close>. The
  loop has no exit but the \<^verbatim>\<open>return\<close>, so it is a partial function: \<open>None\<close> is the
  value of a run that never returns. The inner \<^verbatim>\<open>for\<close> returns the first program of the
  list whose value is the target, which is \<open>find\<close>. The new value of \<^verbatim>\<open>programs\<close> (line 81,
  then line 82) is written out at both of its uses.
\<close>

partial_function (option) search_loop ::
  "StringLanguage \<Rightarrow> 'i \<Rightarrow> string \<Rightarrow> StringTree list \<Rightarrow> StringTree option" where
  "search_loop language inputs outputs programs =
     (case find (\<lambda>program. interpret_node program = outputs)
             (filter_observationally_equivalent language
                (programs @ grow language programs) inputs) of
        Some program \<Rightarrow> Some program
      | None \<Rightarrow>
          search_loop language inputs outputs
            (filter_observationally_equivalent language
               (programs @ grow language programs) inputs))"

definition bottom_up_explicit :: "StringLanguage \<Rightarrow> 'i \<Rightarrow> string \<Rightarrow> StringTree option" where
  "bottom_up_explicit language inputs outputs =
     search_loop language inputs outputs (initial language)"

text \<open>
  The same loop with a ghost counter: the number of times line 81 (the generator step
  \<^verbatim>\<open>programs.extend(list(language.grow(programs)))\<close>) has run when the loop returns.
\<close>

partial_function (option) search_loop_counted ::
  "StringLanguage \<Rightarrow> 'i \<Rightarrow> string \<Rightarrow> StringTree list \<Rightarrow> nat \<Rightarrow> (StringTree \<times> nat) option" where
  "search_loop_counted language inputs outputs programs grows =
     (case find (\<lambda>program. interpret_node program = outputs)
             (filter_observationally_equivalent language
                (programs @ grow language programs) inputs) of
        Some program \<Rightarrow> Some (program, Suc grows)
      | None \<Rightarrow>
          search_loop_counted language inputs outputs
            (filter_observationally_equivalent language
               (programs @ grow language programs) inputs) (Suc grows))"

definition bottom_up_explicit_counted ::
  "StringLanguage \<Rightarrow> 'i \<Rightarrow> string \<Rightarrow> (StringTree \<times> nat) option" where
  "bottom_up_explicit_counted language inputs outputs =
     search_loop_counted language inputs outputs (initial language) 0"

text \<open>
  The value of \<^verbatim>\<open>programs\<close> after \<open>n\<close> more executions of lines 81 and 82 (expand, then
  collapse), and the frontier of the driver: the same from the initial programs. The
  \<open>n\<close>-th round scans \<open>frontier language inputs n\<close>; the initial programs (\<open>n = 0\<close>) are
  never scanned.
\<close>

fun rounds :: "StringLanguage \<Rightarrow> 'i \<Rightarrow> nat \<Rightarrow> StringTree list \<Rightarrow> StringTree list" where
  "rounds language inputs 0 programs = programs"
| "rounds language inputs (Suc n) programs =
     rounds language inputs n
       (filter_observationally_equivalent language (programs @ grow language programs) inputs)"

definition frontier :: "StringLanguage \<Rightarrow> 'i \<Rightarrow> nat \<Rightarrow> StringTree list" where
  "frontier language inputs n = rounds language inputs n (initial language)"

text \<open>
  The programs over a language: every terminal and group symbol is of its alphabet and
  every repeat count is one of its counts.
\<close>

fun program_over :: "StringLanguage \<Rightarrow> StringTree \<Rightarrow> bool" where
  "program_over L (Terminal s) = (s \<in> set (terminals L))"
| "program_over L (Repeat n c) = (n \<in> set (nums L) \<and> program_over L c)"
| "program_over L (Group s c) = (s \<in> set (terminals L) \<and> program_over L c)"

text \<open>The expansions of a program \<open>p\<close>: the repeat nodes and the group nodes whose child is \<open>p\<close>.\<close>

fun is_repeat_of :: "StringTree \<Rightarrow> StringTree \<Rightarrow> bool" where
  "is_repeat_of p (Repeat n c) = (c = p)"
| "is_repeat_of p q = False"

fun is_group_of :: "StringTree \<Rightarrow> StringTree \<Rightarrow> bool" where
  "is_group_of p (Group s c) = (c = p)"
| "is_group_of p q = False"

section \<open>Interpreter and renderer properties\<close>

lemma str_repeat_concat: "str_repeat k s = concat (replicate k s)"
  by (induction k) simp_all

lemma length_str_repeat: "length (str_repeat k s) = k * length s"
  by (induction k) simp_all

text \<open>
  C3. The interpreter follows the case-by-case definition: a terminal evaluates to its
  one-character content; a repeat node whose count \<open>n\<close> is not negative (every count of a
  well-formed tree is at least 2) evaluates to \<open>n\<close> copies of the child's value, of length
  \<open>n\<close> times the child's; a group node evaluates to its symbol followed by the child's value,
  of length one more than the child's.
\<close>

theorem interpret_cases:
  "interpret_node (Terminal s) = [s]
   \<and> length (interpret_node (Terminal s)) = 1
   \<and> (0 \<le> n \<longrightarrow>
        interpret_node (Repeat n c) = concat (replicate (nat n) (interpret_node c))
        \<and> int (length (interpret_node (Repeat n c))) = n * int (length (interpret_node c)))
   \<and> interpret_node (Group s c) = s # interpret_node c
   \<and> length (interpret_node (Group s c)) = 1 + length (interpret_node c)"
proof -
  have rep: "interpret_node (Repeat n c) = concat (replicate (nat n) (interpret_node c))"
    if "0 \<le> n"
    using that by (cases "n = 0") (simp_all add: py_int_mul_str_def str_repeat_concat)
  have len: "int (length (interpret_node (Repeat n c))) = n * int (length (interpret_node c))"
    if "0 \<le> n"
    using that by (cases "n = 0") (simp_all add: py_int_mul_str_def length_str_repeat)
  show ?thesis
    using rep len by simp
qed

theorem interpret_cases_witness:
  "(0::int) \<le> 3
   \<and> interpret_node (Repeat 3 (Group CHR ''a'' (Terminal CHR ''b''))) = ''ababab''
   \<and> int (length (interpret_node (Repeat 3 (Group CHR ''a'' (Terminal CHR ''b''))))) = 3 * 2"
  using interpret_cases [of "CHR ''a''" 3 "Group CHR ''a'' (Terminal CHR ''b'')"]
  by (simp add: eval_nat_numeral)

lemma py_str_int_digit: "py_str_int 3 = ''3''" "py_str_int 2 = ''2''"
  by (simp_all add: py_str_int_def str_nat.simps [of 3] str_nat.simps [of 2] digit_char_def)

text \<open>
  C7. The renderer gives a terminal as its content, and a repeat node and a group node in
  the same format: the content, then the child's rendering in parentheses. Nothing in the
  output tells the two kinds apart: when the count prints as the symbol, the renderings are
  equal.
\<close>

theorem render_cases:
  "render (Terminal s) = [s]
   \<and> render (Repeat n c) = py_str_int n @ ''('' @ render c @ '')''
   \<and> render (Group s c) = [s] @ ''('' @ render c @ '')''
   \<and> (py_str_int n = [s] \<longrightarrow> render (Repeat n c) = render (Group s c))"
  by simp

theorem render_cases_witness:
  "py_str_int 2 = [CHR ''2'']
   \<and> render (Repeat 2 (Terminal CHR ''a'')) = ''2(a)''
   \<and> render (Group CHR ''2'' (Terminal CHR ''a'')) = ''2(a)''"
  using render_cases [of "CHR ''2''" 2 "Terminal CHR ''a''"]
  by (simp add: py_str_int_digit)

section \<open>Filter, generator and driver lemmas\<close>

text \<open>
  The loop returns \<open>p\<close> exactly when \<open>p\<close> is the first match of the scan of some round and
  the scans of all rounds before it find nothing.
\<close>

lemma search_loop_returns_scan:
  assumes "search_loop L (i::'i) out ps = Some p"
  shows "\<exists>m. find (\<lambda>q. interpret_node q = out) (rounds L i (Suc m) ps) = Some p
           \<and> (\<forall>j<m. find (\<lambda>q. interpret_node q = out) (rounds L i (Suc j) ps) = None)"
proof (rule search_loop.raw_induct
    [where P = "\<lambda>L i out ps p.
       \<exists>m. find (\<lambda>q. interpret_node q = out) (rounds L i (Suc m) ps) = Some p
           \<and> (\<forall>j<m. find (\<lambda>q. interpret_node q = out) (rounds L i (Suc j) ps) = None)",
     OF _ assms])
  fix loop :: "StringLanguage \<Rightarrow> 'i \<Rightarrow> string \<Rightarrow> StringTree list \<Rightarrow> StringTree option"
  fix L and i :: 'i and out ps p
  let ?next = "filter_observationally_equivalent L (ps @ grow L ps) i"
  assume IH: "\<And>L (i::'i) out ps p. loop L i out ps = Some p \<Longrightarrow>
       \<exists>m. find (\<lambda>q. interpret_node q = out) (rounds L i (Suc m) ps) = Some p
           \<and> (\<forall>j<m. find (\<lambda>q. interpret_node q = out) (rounds L i (Suc j) ps) = None)"
  assume body: "(case find (\<lambda>program. interpret_node program = out) ?next of
                   None \<Rightarrow> loop L i out ?next
                 | Some program \<Rightarrow> Some program) = Some p"
  show "\<exists>m. find (\<lambda>q. interpret_node q = out) (rounds L i (Suc m) ps) = Some p
           \<and> (\<forall>j<m. find (\<lambda>q. interpret_node q = out) (rounds L i (Suc j) ps) = None)"
  proof (cases "find (\<lambda>q. interpret_node q = out) ?next")
    case None
    with body have "loop L i out ?next = Some p" by simp
    from IH [OF this] obtain m where
      m: "find (\<lambda>q. interpret_node q = out) (rounds L i (Suc m) ?next) = Some p"
         "\<forall>j<m. find (\<lambda>q. interpret_node q = out) (rounds L i (Suc j) ?next) = None"
      by blast
    have "find (\<lambda>q. interpret_node q = out) (rounds L i (Suc j) ps) = None" if "j < Suc m" for j
    proof (cases j)
      case 0
      then show ?thesis using None by simp
    next
      case (Suc k)
      then show ?thesis using m(2) that by simp
    qed
    with m(1) show ?thesis
      by (intro exI [of _ "Suc m"]) simp
  next
    case (Some q)
    with body have "q = p" by simp
    with Some show ?thesis
      by (intro exI [of _ 0]) simp
  qed
qed

lemma scan_search_loop_returns:
  assumes "find (\<lambda>q. interpret_node q = out) (rounds L i (Suc m) ps) = Some p"
    and "\<forall>j<m. find (\<lambda>q. interpret_node q = out) (rounds L i (Suc j) ps) = None"
  shows "search_loop L i out ps = Some p"
  using assms
proof (induction m arbitrary: ps)
  case 0
  then show ?case
    by (subst search_loop.simps) simp
next
  case (Suc m)
  let ?next = "filter_observationally_equivalent L (ps @ grow L ps) i"
  from Suc.prems(2) have first: "find (\<lambda>q. interpret_node q = out) ?next = None"
    by (metis rounds.simps zero_less_Suc)
  have "\<forall>j<m. find (\<lambda>q. interpret_node q = out) (rounds L i (Suc j) ?next) = None"
    using Suc.prems(2) by (metis Suc_less_eq rounds.simps(2))
  moreover have "find (\<lambda>q. interpret_node q = out) (rounds L i (Suc m) ?next) = Some p"
    using Suc.prems(1) by simp
  ultimately have "search_loop L i out ?next = Some p"
    by (rule Suc.IH [rotated])
  with first show ?case
    by (subst search_loop.simps) simp
qed


lemma filter_loop_subset: "set (filter_loop seen ps) \<subseteq> set ps"
  by (induction ps arbitrary: seen) (auto simp: Let_def)

lemma find_filter_loop:
  "find (\<lambda>p. interpret_node p = out) (filter_loop seen ps) =
     (if out \<in> seen then None else find (\<lambda>p. interpret_node p = out) ps)"
  by (induction ps arbitrary: seen) (auto simp: Let_def)

lemma filter_filter_loop:
  "filter (\<lambda>p. interpret_node p = out) (filter_loop seen ps) =
     (if out \<in> seen then []
      else case find (\<lambda>p. interpret_node p = out) ps of None \<Rightarrow> [] | Some p \<Rightarrow> [p])"
proof (induction ps arbitrary: seen)
  case Nil
  then show ?case by simp
next
  case (Cons p ps)
  show ?case
  proof (cases "interpret_node p \<in> seen")
    case True
    then show ?thesis using Cons.IH [of seen] by auto
  next
    case False
    then show ?thesis using Cons.IH [of "insert (interpret_node p) seen"] by (auto simp: Let_def)
  qed
qed

lemma filter_loop_enumerate:
  "filter_loop seen ps =
     map snd (filter (\<lambda>(k, p). interpret_node p \<notin> seen \<union> interpret_node ` set (take (k - n) ps))
                (enumerate n ps))"
proof (induction ps arbitrary: seen n)
  case Nil
  then show ?case by simp
next
  case (Cons p ps)
  have shift: "filter (\<lambda>(k, q). interpret_node q \<notin> seen \<union> interpret_node ` set (take (k - n) (p # ps)))
                 (enumerate (Suc n) ps) =
               filter (\<lambda>(k, q). interpret_node q \<notin> insert (interpret_node p) seen
                                    \<union> interpret_node ` set (take (k - Suc n) ps))
                 (enumerate (Suc n) ps)"
  proof (rule filter_cong [OF refl])
    fix x assume "x \<in> set (enumerate (Suc n) ps)"
    then have "Suc n \<le> fst x"
      by (simp add: in_set_enumerate_eq)
    moreover obtain k q where x: "x = (k, q)"
      by (cases x)
    ultimately have "Suc n \<le> k"
      by simp
    then obtain d where "k - n = Suc d" "k - Suc n = d"
      by (metis Suc_diff_le diff_Suc_Suc)
    with x show "(case x of (k, q) \<Rightarrow> interpret_node q \<notin> seen \<union> interpret_node ` set (take (k - n) (p # ps))) =
                 (case x of (k, q) \<Rightarrow> interpret_node q \<notin> insert (interpret_node p) seen
                                    \<union> interpret_node ` set (take (k - Suc n) ps))"
      by auto
  qed
  show ?case
  proof (cases "interpret_node p \<in> seen")
    case True
    then have "insert (interpret_node p) seen = seen" by auto
    with True show ?thesis
      using Cons.IH [of seen "Suc n"] shift by simp
  next
    case False
    then show ?thesis
      using Cons.IH [of "insert (interpret_node p) seen" "Suc n"] shift by (simp add: Let_def)
  qed
qed

lemma grow_concat:
  "grow L ps =
     concat (map (\<lambda>p. p # map (\<lambda>n. Repeat n p) (nums L) @ map (\<lambda>t. Group t p) (terminals L)) ps)"
  by (induction ps) (simp_all add: rules_def repeat_def group_def)

lemma grow_superset: "set ps \<subseteq> set (grow L ps)"
  by (induction ps) auto

lemma grow_over:
  "\<forall>p \<in> set ps. program_over L p \<Longrightarrow> \<forall>q \<in> set (grow L ps). program_over L q"
  by (induction ps) (auto simp: rules_def repeat_def group_def)

lemma rounds_over:
  "\<forall>p \<in> set ps. program_over L p \<Longrightarrow> \<forall>q \<in> set (rounds L i n ps). program_over L q"
proof (induction n arbitrary: ps)
  case 0
  then show ?case by simp
next
  case (Suc n)
  have "\<forall>q \<in> set (filter_observationally_equivalent L (ps @ grow L ps) i). program_over L q"
    using Suc.prems grow_over [OF Suc.prems] filter_loop_subset [of "{}" "ps @ grow L ps"]
    by (auto simp: filter_observationally_equivalent_def)
  from Suc.IH [OF this] show ?case by simp
qed

lemma initial_over: "\<forall>p \<in> set (initial L). program_over L p"
  by (simp add: initial_def)

lemma frontier_over: "\<forall>q \<in> set (frontier L i n). program_over L q"
  unfolding frontier_def by (rule rounds_over [OF initial_over])

lemma set_str_repeat: "set (str_repeat k s) \<subseteq> set s"
  by (induction k) auto

lemma interpret_chars: "program_over L p \<Longrightarrow> set (interpret_node p) \<subseteq> set (terminals L)"
proof (induction p)
  case (Terminal s)
  then show ?case by simp
next
  case (Repeat n c)
  then show ?case using set_str_repeat [of "nat n" "interpret_node c"]
    by (auto simp: py_int_mul_str_def)
next
  case (Group s c)
  then show ?case by auto
qed

lemma find_initial:
  "c \<in> set ts \<Longrightarrow> find (\<lambda>p. interpret_node p = [c]) (map Terminal ts @ rest) = Some (Terminal c)"
  by (induction ts) auto

lemma search_loop_counted_returns_scan:
  assumes "search_loop_counted L (i::'i) out ps k = Some r"
  shows "\<exists>m. snd r = k + Suc m
           \<and> find (\<lambda>q. interpret_node q = out) (rounds L i (Suc m) ps) = Some (fst r)
           \<and> (\<forall>j<m. find (\<lambda>q. interpret_node q = out) (rounds L i (Suc j) ps) = None)"
proof (rule search_loop_counted.raw_induct
    [where P = "\<lambda>L i out ps k r.
       \<exists>m. snd r = k + Suc m
           \<and> find (\<lambda>q. interpret_node q = out) (rounds L i (Suc m) ps) = Some (fst r)
           \<and> (\<forall>j<m. find (\<lambda>q. interpret_node q = out) (rounds L i (Suc j) ps) = None)",
     OF _ assms])
  fix loop :: "StringLanguage \<Rightarrow> 'i \<Rightarrow> string \<Rightarrow> StringTree list \<Rightarrow> nat \<Rightarrow> (StringTree \<times> nat) option"
  fix L and i :: 'i and out ps k r
  let ?next = "filter_observationally_equivalent L (ps @ grow L ps) i"
  assume IH: "\<And>L (i::'i) out ps k r. loop L i out ps k = Some r \<Longrightarrow>
       \<exists>m. snd r = k + Suc m
           \<and> find (\<lambda>q. interpret_node q = out) (rounds L i (Suc m) ps) = Some (fst r)
           \<and> (\<forall>j<m. find (\<lambda>q. interpret_node q = out) (rounds L i (Suc j) ps) = None)"
  assume body: "(case find (\<lambda>program. interpret_node program = out) ?next of
                   None \<Rightarrow> loop L i out ?next (Suc k)
                 | Some program \<Rightarrow> Some (program, Suc k)) = Some r"
  show "\<exists>m. snd r = k + Suc m
           \<and> find (\<lambda>q. interpret_node q = out) (rounds L i (Suc m) ps) = Some (fst r)
           \<and> (\<forall>j<m. find (\<lambda>q. interpret_node q = out) (rounds L i (Suc j) ps) = None)"
  proof (cases "find (\<lambda>q. interpret_node q = out) ?next")
    case None
    with body have "loop L i out ?next (Suc k) = Some r" by simp
    from IH [OF this] obtain m where
      m: "snd r = Suc k + Suc m"
         "find (\<lambda>q. interpret_node q = out) (rounds L i (Suc m) ?next) = Some (fst r)"
         "\<forall>j<m. find (\<lambda>q. interpret_node q = out) (rounds L i (Suc j) ?next) = None"
      by blast
    have "find (\<lambda>q. interpret_node q = out) (rounds L i (Suc j) ps) = None" if "j < Suc m" for j
    proof (cases j)
      case 0
      then show ?thesis using None by simp
    next
      case (Suc j')
      then show ?thesis using m(3) that by simp
    qed
    with m(1,2) show ?thesis
      by (intro exI [of _ "Suc m"]) simp
  next
    case (Some q)
    with body have "r = (q, Suc k)" by simp
    with Some show ?thesis
      by (intro exI [of _ 0]) simp
  qed
qed

lemma scan_search_loop_counted_returns:
  assumes "find (\<lambda>q. interpret_node q = out) (rounds L i (Suc m) ps) = Some p"
    and "\<forall>j<m. find (\<lambda>q. interpret_node q = out) (rounds L i (Suc j) ps) = None"
  shows "search_loop_counted L i out ps k = Some (p, k + Suc m)"
  using assms
proof (induction m arbitrary: ps k)
  case 0
  then show ?case
    by (subst search_loop_counted.simps) simp
next
  case (Suc m)
  let ?next = "filter_observationally_equivalent L (ps @ grow L ps) i"
  from Suc.prems(2) have first: "find (\<lambda>q. interpret_node q = out) ?next = None"
    by (metis rounds.simps zero_less_Suc)
  have "\<forall>j<m. find (\<lambda>q. interpret_node q = out) (rounds L i (Suc j) ?next) = None"
    using Suc.prems(2) by (metis Suc_less_eq rounds.simps(2))
  moreover have "find (\<lambda>q. interpret_node q = out) (rounds L i (Suc m) ?next) = Some p"
    using Suc.prems(1) by simp
  ultimately have "search_loop_counted L i out ?next (Suc k) = Some (p, Suc k + Suc m)"
    by (rule Suc.IH [rotated])
  with first show ?case
    by (subst search_loop_counted.simps) simp
qed

text \<open>The counter is a ghost: forgetting it gives the loop of the source.\<close>

lemma search_loop_counted_fst:
  "map_option fst (search_loop_counted L i out ps k) = search_loop L i out ps"
proof (cases "search_loop L i out ps")
  case None
  have "search_loop_counted L i out ps k = None"
  proof (rule ccontr)
    assume "search_loop_counted L i out ps k \<noteq> None"
    then obtain r where "search_loop_counted L i out ps k = Some r" by auto
    from search_loop_counted_returns_scan [OF this] obtain m where
      "find (\<lambda>q. interpret_node q = out) (rounds L i (Suc m) ps) = Some (fst r)"
      "\<forall>j<m. find (\<lambda>q. interpret_node q = out) (rounds L i (Suc j) ps) = None"
      by blast
    then have "search_loop L i out ps = Some (fst r)"
      by (rule scan_search_loop_returns)
    with None show False by simp
  qed
  with None show ?thesis by simp
next
  case (Some p)
  from search_loop_returns_scan [OF this] obtain m where
    "find (\<lambda>q. interpret_node q = out) (rounds L i (Suc m) ps) = Some p"
    "\<forall>j<m. find (\<lambda>q. interpret_node q = out) (rounds L i (Suc j) ps) = None"
    by blast
  then have "search_loop_counted L i out ps k = Some (p, k + Suc m)"
    by (rule scan_search_loop_counted_returns)
  with Some show ?thesis by simp
qed

lemma bottom_up_explicit_counted_fst:
  "map_option fst (bottom_up_explicit_counted L i out) = bottom_up_explicit L i out"
  by (simp add: bottom_up_explicit_counted_def bottom_up_explicit_def search_loop_counted_fst)

lemma rounds_inputs: "rounds L i1 n ps = rounds L i2 n ps"
  by (induction n arbitrary: ps) (simp_all add: filter_observationally_equivalent_def)

lemma search_loop_inputs_le:
  assumes "search_loop L i1 out ps = Some p"
  shows "search_loop L i2 out ps = Some p"
proof -
  from search_loop_returns_scan [OF assms] obtain m where
    "find (\<lambda>q. interpret_node q = out) (rounds L i1 (Suc m) ps) = Some p"
    "\<forall>j<m. find (\<lambda>q. interpret_node q = out) (rounds L i1 (Suc j) ps) = None"
    by blast
  then have "find (\<lambda>q. interpret_node q = out) (rounds L i2 (Suc m) ps) = Some p"
    "\<forall>j<m. find (\<lambda>q. interpret_node q = out) (rounds L i2 (Suc j) ps) = None"
    by (simp_all only: rounds_inputs [of L i2 _ ps i1])
  then show ?thesis
    by (rule scan_search_loop_returns)
qed

lemma search_loop_inputs: "search_loop L i1 out ps = search_loop L i2 out ps"
proof (cases "search_loop L i1 out ps")
  case None
  show ?thesis
  proof (cases "search_loop L i2 out ps")
    case (Some p)
    from search_loop_inputs_le [OF this, of i1] None show ?thesis by simp
  qed (simp add: None)
next
  case (Some p)
  from search_loop_inputs_le [OF this, of i2] Some show ?thesis by simp
qed

lemma search_loop_never:
  assumes "\<forall>n. \<forall>q \<in> set (rounds L i (Suc n) ps). interpret_node q \<noteq> out"
  shows "search_loop L i out ps = None"
proof (rule ccontr)
  assume "search_loop L i out ps \<noteq> None"
  then obtain p where "search_loop L i out ps = Some p" by auto
  from search_loop_returns_scan [OF this] obtain m where
    "find (\<lambda>q. interpret_node q = out) (rounds L i (Suc m) ps) = Some p"
    by blast
  then have "p \<in> set (rounds L i (Suc m) ps)" "interpret_node p = out"
    by (auto simp: find_Some_iff)
  with assms show False by blast
qed

lemmas language_defs =
  frontier_def StringLanguage_init_def initial_def rules_def repeat_def group_def
  filter_observationally_equivalent_def py_int_mul_str_def

lemma scan_aaa:
  "find (\<lambda>p. interpret_node p = ''aaa'') (rounds StringLanguage_init i (Suc 0) (initial StringLanguage_init))
     = Some (Repeat 3 (Terminal CHR ''a''))"
  by (simp add: language_defs eval_nat_numeral)

lemma scan_ababab_1:
  "find (\<lambda>p. interpret_node p = ''ababab'') (rounds StringLanguage_init i (Suc 0) (initial StringLanguage_init))
     = None"
  by (simp add: language_defs eval_nat_numeral)

lemma scan_ababab_2:
  "find (\<lambda>p. interpret_node p = ''ababab'') (rounds StringLanguage_init i (Suc (Suc 0)) (initial StringLanguage_init))
     = Some (Repeat 3 (Group CHR ''a'' (Terminal CHR ''b'')))"
  by (simp add: language_defs eval_nat_numeral)

lemma bottom_up_aaa:
  "bottom_up_explicit StringLanguage_init i ''aaa'' = Some (Repeat 3 (Terminal CHR ''a''))"
  unfolding bottom_up_explicit_def
  by (rule scan_search_loop_returns [where m = 0, OF scan_aaa]) simp

lemma bottom_up_ababab:
  "bottom_up_explicit StringLanguage_init i ''ababab'' = Some (Repeat 3 (Group CHR ''a'' (Terminal CHR ''b'')))"
  unfolding bottom_up_explicit_def
  using scan_ababab_1 [of i]
  by (intro scan_search_loop_returns [where m = "Suc 0", OF scan_ababab_2]) simp

section \<open>Equivalence filter\<close>

text \<open>
  C2 (as amended). The filter keeps the program at a position exactly when its value does
  not occur at an earlier position of the same sequence, in the order of the sequence; the
  result is a function of the sequence alone, the set \<^verbatim>\<open>seen\<close> being empty at the start of
  every call. For every value, the survivors with that value are the first program of the
  sequence with that value and nothing else. Hence for two distinct trees \<open>t1\<close>, \<open>t2\<close> of
  the sequence with the same value, where \<open>t1\<close> is the first program of the sequence with
  that value, exactly one survives, and it is \<open>t1\<close>.
\<close>

theorem filter_keeps_first_occurrence:
  "filter_observationally_equivalent L ps i =
     map snd (filter (\<lambda>(k, p). interpret_node p \<notin> interpret_node ` set (take k ps))
                (enumerate 0 ps))
   \<and> filter (\<lambda>p. interpret_node p = out) (filter_observationally_equivalent L ps i) =
       (case find (\<lambda>p. interpret_node p = out) ps of None \<Rightarrow> [] | Some p \<Rightarrow> [p])
   \<and> (find (\<lambda>p. interpret_node p = interpret_node t1) ps = Some t1
        \<and> t2 \<in> set ps \<and> t1 \<noteq> t2 \<and> interpret_node t1 = interpret_node t2
      \<longrightarrow> t1 \<in> set (filter_observationally_equivalent L ps i)
          \<and> t2 \<notin> set (filter_observationally_equivalent L ps i))"
proof -
  let ?F = "filter_observationally_equivalent L ps i"
  have pos: "?F = map snd (filter (\<lambda>(k, p). interpret_node p \<notin> interpret_node ` set (take k ps))
                (enumerate 0 ps))"
    using filter_loop_enumerate [of "{}" ps 0]
    by (simp add: filter_observationally_equivalent_def)
  have one: "filter (\<lambda>p. interpret_node p = out) ?F =
       (case find (\<lambda>p. interpret_node p = out) ps of None \<Rightarrow> [] | Some p \<Rightarrow> [p])" for out
    by (simp add: filter_observationally_equivalent_def filter_filter_loop)
  have pair: "t1 \<in> set ?F \<and> t2 \<notin> set ?F"
    if first: "find (\<lambda>p. interpret_node p = interpret_node t1) ps = Some t1"
      and neq: "t1 \<noteq> t2" and same: "interpret_node t1 = interpret_node t2"
  proof -
    have "filter (\<lambda>p. interpret_node p = interpret_node t1) ?F = [t1]"
      using one [of "interpret_node t1"] first by simp
    then have "set (filter (\<lambda>p. interpret_node p = interpret_node t1) ?F) = {t1}"
      by simp
    then have "{p \<in> set ?F. interpret_node p = interpret_node t1} = {t1}"
      by simp
    with neq same show ?thesis by auto
  qed
  show ?thesis
    using pos one [of out] pair by blast
qed

theorem filter_keeps_first_occurrence_witness:
  "find (\<lambda>p. interpret_node p = interpret_node (Repeat 4 (Terminal CHR ''a'')))
      [Repeat 4 (Terminal CHR ''a''), Repeat 2 (Repeat 2 (Terminal CHR ''a'')),
       Group CHR ''a'' (Repeat 3 (Terminal CHR ''a''))]
     = Some (Repeat 4 (Terminal CHR ''a''))
   \<and> Repeat 2 (Repeat 2 (Terminal CHR ''a''))
       \<in> set [Repeat 4 (Terminal CHR ''a''), Repeat 2 (Repeat 2 (Terminal CHR ''a'')),
               Group CHR ''a'' (Repeat 3 (Terminal CHR ''a''))]
   \<and> Repeat 4 (Terminal CHR ''a'') \<noteq> Repeat 2 (Repeat 2 (Terminal CHR ''a''))
   \<and> interpret_node (Repeat 4 (Terminal CHR ''a''))
       = interpret_node (Repeat 2 (Repeat 2 (Terminal CHR ''a'')))
   \<and> Repeat 4 (Terminal CHR ''a'')
       \<in> set (filter_observationally_equivalent StringLanguage_init
                 [Repeat 4 (Terminal CHR ''a''), Repeat 2 (Repeat 2 (Terminal CHR ''a'')),
                  Group CHR ''a'' (Repeat 3 (Terminal CHR ''a''))] (''''::string))
   \<and> Repeat 2 (Repeat 2 (Terminal CHR ''a''))
       \<notin> set (filter_observationally_equivalent StringLanguage_init
                 [Repeat 4 (Terminal CHR ''a''), Repeat 2 (Repeat 2 (Terminal CHR ''a'')),
                  Group CHR ''a'' (Repeat 3 (Terminal CHR ''a''))] (''''::string))"
  using filter_keeps_first_occurrence
    [of StringLanguage_init
        "[Repeat 4 (Terminal CHR ''a''), Repeat 2 (Repeat 2 (Terminal CHR ''a'')),
          Group CHR ''a'' (Repeat 3 (Terminal CHR ''a''))]"
        "''''::string" "''aaaa''" "Repeat 4 (Terminal CHR ''a'')" "Repeat 2 (Repeat 2 (Terminal CHR ''a''))"]
  by (simp add: filter_observationally_equivalent_def py_int_mul_str_def eval_nat_numeral)

text \<open>
  The pairwise reading fails when a third program with the same value stands before both:
  in the sequence \<open>4(a)\<close>, \<open>2(2(a))\<close>, \<open>a(3(a))\<close> all three evaluate to \<open>aaaa\<close>, the last
  two are distinct, and neither of them survives. Round 2 of the driver on the fixed
  configuration filters a sequence that contains these three in this order.
\<close>

theorem filter_later_pair_counterexample:
  "Repeat 2 (Repeat 2 (Terminal CHR ''a'')) \<noteq> Group CHR ''a'' (Repeat 3 (Terminal CHR ''a''))
   \<and> interpret_node (Repeat 2 (Repeat 2 (Terminal CHR ''a'')))
       = interpret_node (Group CHR ''a'' (Repeat 3 (Terminal CHR ''a'')))
   \<and> filter_observationally_equivalent StringLanguage_init
        [Repeat 4 (Terminal CHR ''a''),
         Repeat 2 (Repeat 2 (Terminal CHR ''a'')),
         Group CHR ''a'' (Repeat 3 (Terminal CHR ''a''))] (''''::string)
       = [Repeat 4 (Terminal CHR ''a'')]
   \<and> Repeat 2 (Repeat 2 (Terminal CHR ''a''))
       \<notin> set (filter_observationally_equivalent StringLanguage_init
                 [Repeat 4 (Terminal CHR ''a''),
                  Repeat 2 (Repeat 2 (Terminal CHR ''a'')),
                  Group CHR ''a'' (Repeat 3 (Terminal CHR ''a''))] (''''::string))
   \<and> Group CHR ''a'' (Repeat 3 (Terminal CHR ''a''))
       \<notin> set (filter_observationally_equivalent StringLanguage_init
                 [Repeat 4 (Terminal CHR ''a''),
                  Repeat 2 (Repeat 2 (Terminal CHR ''a'')),
                  Group CHR ''a'' (Repeat 3 (Terminal CHR ''a''))] (''''::string))"
  by (simp add: filter_observationally_equivalent_def py_int_mul_str_def eval_nat_numeral)

section \<open>Generator\<close>

lemma count_repeat_block:
  "length (filter (is_repeat_of p) (map (\<lambda>n. Repeat n x) ns)) = (if x = p then length ns else 0)"
  by (induction ns) auto

lemma count_repeat_group_block:
  "filter (is_repeat_of p) (map (\<lambda>t. Group t x) ts) = []"
  by (induction ts) auto

lemma count_group_block:
  "length (filter (is_group_of p) (map (\<lambda>t. Group t x) ts)) = (if x = p then length ts else 0)"
  by (induction ts) auto

lemma count_group_repeat_block:
  "filter (is_group_of p) (map (\<lambda>n. Repeat n x) ns) = []"
  by (induction ns) auto

lemma grow_repeat_count:
  "length (filter (is_repeat_of p) (grow L P)) =
     length (filter (is_repeat_of p) P) + length (nums L) * count_list P p"
  by (induction P)
     (simp_all add: rules_def repeat_def group_def count_repeat_block count_repeat_group_block)

lemma grow_group_count:
  "length (filter (is_group_of p) (grow L P)) =
     length (filter (is_group_of p) P) + length (terminals L) * count_list P p"
  by (induction P)
     (simp_all add: rules_def repeat_def group_def count_group_block count_group_repeat_block)

text \<open>
  C4. One generator step on \<open>P\<close> is, for each program \<open>p\<close> of \<open>P\<close> in order, \<open>p\<close> itself,
  then one repeat node per count in the order of the counts, then one group node per symbol
  in the order of the alphabet, all with child \<open>p\<close>; on the fixed configuration that is
  \<open>p\<close>, the repeats 2, 3, 4 and the groups a, b, c. Every program of \<open>P\<close> is still present,
  and for every \<open>p\<close> the number of repeat nodes over \<open>p\<close> grows by the number of counts, and
  the number of group nodes over \<open>p\<close> by the size of the alphabet, once for each occurrence
  of \<open>p\<close> in \<open>P\<close>.
\<close>

theorem grow_order_and_completeness:
  "grow L P =
     concat (map (\<lambda>p. p # map (\<lambda>n. Repeat n p) (nums L) @ map (\<lambda>t. Group t p) (terminals L)) P)
   \<and> grow StringLanguage_init P =
       concat (map (\<lambda>p. [p, Repeat 2 p, Repeat 3 p, Repeat 4 p,
                          Group CHR ''a'' p, Group CHR ''b'' p, Group CHR ''c'' p]) P)
   \<and> set P \<subseteq> set (grow L P)
   \<and> length (filter (is_repeat_of p) (grow L P)) =
       length (filter (is_repeat_of p) P) + length (nums L) * count_list P p
   \<and> length (filter (is_group_of p) (grow L P)) =
       length (filter (is_group_of p) P) + length (terminals L) * count_list P p"
proof -
  have "grow StringLanguage_init P =
       concat (map (\<lambda>p. [p, Repeat 2 p, Repeat 3 p, Repeat 4 p,
                          Group CHR ''a'' p, Group CHR ''b'' p, Group CHR ''c'' p]) P)"
    by (simp add: grow_concat StringLanguage_init_def)
  then show ?thesis
    using grow_concat [of L P] grow_superset [of P L] grow_repeat_count [of p L P]
      grow_group_count [of p L P]
    by simp
qed


theorem grow_order_and_completeness_witness:
  "grow StringLanguage_init [Terminal CHR ''a'', Terminal CHR ''b''] =
     [Terminal CHR ''a'',
      Repeat 2 (Terminal CHR ''a''), Repeat 3 (Terminal CHR ''a''), Repeat 4 (Terminal CHR ''a''),
      Group CHR ''a'' (Terminal CHR ''a''), Group CHR ''b'' (Terminal CHR ''a''),
      Group CHR ''c'' (Terminal CHR ''a''),
      Terminal CHR ''b'',
      Repeat 2 (Terminal CHR ''b''), Repeat 3 (Terminal CHR ''b''), Repeat 4 (Terminal CHR ''b''),
      Group CHR ''a'' (Terminal CHR ''b''), Group CHR ''b'' (Terminal CHR ''b''),
      Group CHR ''c'' (Terminal CHR ''b'')]"
  using grow_order_and_completeness
    [of StringLanguage_init "[Terminal CHR ''a'', Terminal CHR ''b'']" "Terminal CHR ''a''"]
  by (simp add: StringLanguage_init_def rules_def repeat_def group_def)

section \<open>Search driver\<close>

text \<open>
  C1. With the alphabet \<open>abc\<close> and the counts 2, 3, 4 of \<^verbatim>\<open>StringLanguage.__init__\<close>, the
  driver returns for the target \<open>aaa\<close> a program that renders as \<open>3(a)\<close>, and for the target
  \<open>ababab\<close> a program that renders as \<open>3(a(b))\<close>; a run that did not return would have the
  value \<open>None\<close>.
\<close>

theorem scenarios_1_and_2:
  "map_option render (bottom_up_explicit StringLanguage_init inputs ''aaa'') = Some ''3(a)''
   \<and> map_option render (bottom_up_explicit StringLanguage_init inputs ''ababab'') = Some ''3(a(b))''"
  by (simp add: bottom_up_aaa bottom_up_ababab py_str_int_digit)

text \<open>
  C5. When the driver returns a program, the program evaluates to the target, and it is the
  first match of the scan: it stands at some position \<open>k\<close> of the collapsed frontier of
  some round, no program at an earlier position of that frontier evaluates to the target,
  and no program of an earlier round's frontier does.
\<close>

theorem driver_returns_lowest_match:
  assumes "bottom_up_explicit L i out = Some p"
  shows "interpret_node p = out
    \<and> (\<exists>n k. k < length (frontier L i (Suc n))
          \<and> frontier L i (Suc n) ! k = p
          \<and> (\<forall>j<k. interpret_node (frontier L i (Suc n) ! j) \<noteq> out)
          \<and> (\<forall>m<n. \<forall>q \<in> set (frontier L i (Suc m)). interpret_node q \<noteq> out))"
proof -
  from assms have "search_loop L i out (initial L) = Some p"
    by (simp add: bottom_up_explicit_def)
  from search_loop_returns_scan [OF this] obtain n where
    hit: "find (\<lambda>q. interpret_node q = out) (frontier L i (Suc n)) = Some p"
    and miss: "\<forall>m<n. find (\<lambda>q. interpret_node q = out) (frontier L i (Suc m)) = None"
    unfolding frontier_def by blast
  from hit obtain k where
    k: "k < length (frontier L i (Suc n))" "interpret_node (frontier L i (Suc n) ! k) = out"
       "p = frontier L i (Suc n) ! k"
       "\<forall>j<k. interpret_node (frontier L i (Suc n) ! j) \<noteq> out"
    unfolding find_Some_iff by blast
  from miss have "\<forall>m<n. \<forall>q \<in> set (frontier L i (Suc m)). interpret_node q \<noteq> out"
    unfolding find_None_iff by blast
  with k show ?thesis by blast
qed

theorem driver_returns_lowest_match_witness:
  "bottom_up_explicit StringLanguage_init (''''::string) ''aaa'' = Some (Repeat 3 (Terminal CHR ''a''))
   \<and> interpret_node (Repeat 3 (Terminal CHR ''a'')) = ''aaa''"
  using driver_returns_lowest_match [OF bottom_up_aaa [of "''''::string"]] bottom_up_aaa [of "''''::string"]
  by (simp add: py_int_mul_str_def eval_nat_numeral)

lemma outside_alphabet_unproducible:
  assumes "\<not> set out \<subseteq> set (terminals L)" and "program_over L p"
  shows "interpret_node p \<noteq> out"
  using assms interpret_chars [of L p] by auto

text \<open>
  C6. If no program over the alphabet and the counts evaluates to the target, then in no
  round does the frontier hold a program that evaluates to the target, and the driver
  never returns. A target with a character outside the alphabet is such a target.
\<close>

theorem unreachable_target_diverges:
  "((\<forall>p. program_over L p \<longrightarrow> interpret_node p \<noteq> out)
      \<longrightarrow> (\<forall>n. \<forall>p \<in> set (frontier L i n). interpret_node p \<noteq> out)
          \<and> bottom_up_explicit L i out = None)
   \<and> (\<not> set out \<subseteq> set (terminals L)
      \<longrightarrow> (\<forall>p. program_over L p \<longrightarrow> interpret_node p \<noteq> out))"
proof -
  have "(\<forall>n. \<forall>p \<in> set (frontier L i n). interpret_node p \<noteq> out)
          \<and> bottom_up_explicit L i out = None"
    if unreach: "\<forall>p. program_over L p \<longrightarrow> interpret_node p \<noteq> out"
  proof -
    have never: "\<forall>n. \<forall>p \<in> set (frontier L i n). interpret_node p \<noteq> out"
      using unreach frontier_over [of L i] by blast
    then have "\<forall>n. \<forall>q \<in> set (rounds L i (Suc n) (initial L)). interpret_node q \<noteq> out"
      unfolding frontier_def by blast
    then have "search_loop L i out (initial L) = None"
      by (rule search_loop_never)
    with never show ?thesis
      by (simp add: bottom_up_explicit_def)
  qed
  then show ?thesis
    using outside_alphabet_unproducible [of out L] by blast
qed

theorem unreachable_target_diverges_witness:
  "\<not> set ''z'' \<subseteq> set (terminals StringLanguage_init)
   \<and> bottom_up_explicit StringLanguage_init (''''::string) ''z'' = None"
proof -
  have outside: "\<not> set ''z'' \<subseteq> set (terminals StringLanguage_init)"
    by (simp add: StringLanguage_init_def)
  with unreachable_target_diverges [of StringLanguage_init "''z''" "''''::string"]
  show ?thesis by blast
qed

lemma rounds_empty: "rounds L i n [] = []"
  by (induction n) (simp_all add: filter_observationally_equivalent_def)

lemma empty_alphabet_frontier: "terminals L = [] \<Longrightarrow> frontier L i n = []"
  by (simp add: frontier_def initial_def rounds_empty)

lemma empty_alphabet_never: "terminals L = [] \<Longrightarrow> bottom_up_explicit L i out = None"
  unfolding bottom_up_explicit_def
  by (rule search_loop_never) (simp add: initial_def rounds_empty del: rounds.simps)

lemma empty_counts_grow:
  "nums L = [] \<Longrightarrow> grow L P = concat (map (\<lambda>p. p # map (\<lambda>t. Group t p) (terminals L)) P)"
  by (simp add: grow_concat)

lemma empty_counts_scan:
  "find (\<lambda>p. interpret_node p = ''ab'')
     (rounds \<lparr>terminals = ''abc'', nums = []\<rparr> i (Suc 0) (initial \<lparr>terminals = ''abc'', nums = []\<rparr>))
   = Some (Group CHR ''a'' (Terminal CHR ''b''))"
  by (simp add: initial_def rules_def repeat_def group_def filter_observationally_equivalent_def)

lemma empty_counts_returns:
  "bottom_up_explicit \<lparr>terminals = ''abc'', nums = []\<rparr> i ''ab''
   = Some (Group CHR ''a'' (Terminal CHR ''b''))"
  unfolding bottom_up_explicit_def
  by (rule scan_search_loop_returns [where m = 0, OF empty_counts_scan]) simp

text \<open>
  C8 (as amended). With an empty alphabet the initial frontier is empty, the frontier is
  empty in every round, and the driver never returns: no error is reported. With an empty
  count set the initial frontier is still one terminal per symbol, and a generator step
  yields every program followed by its group expansions only.
\<close>

theorem degenerate_configuration_behaviour:
  "(terminals L = []
      \<longrightarrow> initial L = [] \<and> (\<forall>n. frontier L i n = []) \<and> bottom_up_explicit L i out = None)
   \<and> (nums L = []
      \<longrightarrow> initial L = map Terminal (terminals L)
          \<and> grow L P = concat (map (\<lambda>p. p # map (\<lambda>t. Group t p) (terminals L)) P))"
  using empty_alphabet_frontier [of L i] empty_alphabet_never [of L i out]
    empty_counts_grow [of L P]
  by (simp add: initial_def)

theorem degenerate_configuration_behaviour_witness:
  "terminals \<lparr>terminals = [], nums = [2, 3, 4]\<rparr> = []
   \<and> bottom_up_explicit \<lparr>terminals = [], nums = [2, 3, 4]\<rparr> (''''::string) ''a'' = None
   \<and> nums \<lparr>terminals = ''abc'', nums = []\<rparr> = []
   \<and> grow \<lparr>terminals = ''abc'', nums = []\<rparr> [Terminal CHR ''b'']
       = [Terminal CHR ''b'', Group CHR ''a'' (Terminal CHR ''b''),
          Group CHR ''b'' (Terminal CHR ''b''), Group CHR ''c'' (Terminal CHR ''b'')]"
  using degenerate_configuration_behaviour
      [of "\<lparr>terminals = [], nums = [2, 3, 4]\<rparr>" "''''::string" "''a''" "[Terminal CHR ''b'']"]
    degenerate_configuration_behaviour
      [of "\<lparr>terminals = ''abc'', nums = []\<rparr>" "''''::string" "''a''" "[Terminal CHR ''b'']"]
  by simp

text \<open>
  The driver has no check of its configuration and no error exit. With the empty alphabet
  it runs forever on the empty frontier; with the empty count set it searches as usual with
  the group rule alone and returns.
\<close>

theorem degenerate_configuration_counterexample:
  "bottom_up_explicit \<lparr>terminals = [], nums = [2, 3, 4]\<rparr> (''''::string) ''a'' = None
   \<and> bottom_up_explicit \<lparr>terminals = ''abc'', nums = []\<rparr> (''''::string) ''ab''
       = Some (Group CHR ''a'' (Terminal CHR ''b''))"
  by (simp add: empty_alphabet_never empty_counts_returns)

lemma single_symbol_scan:
  assumes "c \<in> set (terminals L)"
  shows "find (\<lambda>p. interpret_node p = [c]) (rounds L i (Suc 0) (initial L)) = Some (Terminal c)"
  using find_initial [OF assms, of "grow L (initial L)"]
  by (simp add: filter_observationally_equivalent_def find_filter_loop initial_def)

lemma single_symbol_returns:
  assumes "c \<in> set (terminals L)"
  shows "bottom_up_explicit L i [c] = Some (Terminal c)"
  unfolding bottom_up_explicit_def
  by (rule scan_search_loop_returns [where m = 0, OF single_symbol_scan [OF assms]]) simp

lemma single_symbol_counted:
  assumes "c \<in> set (terminals L)"
  shows "bottom_up_explicit_counted L i [c] = Some (Terminal c, Suc 0)"
  unfolding bottom_up_explicit_counted_def
  using scan_search_loop_counted_returns [where m = 0 and k = 0, OF single_symbol_scan [OF assms]]
  by simp

text \<open>
  C9 (as amended). For a target that is a single symbol of the alphabet, the driver returns
  the bare terminal of that symbol in the first round: it is the first match in the
  frontier of round 1, which is scanned after exactly one generator step and one collapse.
\<close>

theorem single_symbol_first_round:
  assumes "c \<in> set (terminals L)"
  shows "bottom_up_explicit L i [c] = Some (Terminal c)
    \<and> bottom_up_explicit_counted L i [c] = Some (Terminal c, 1)
    \<and> find (\<lambda>p. interpret_node p = [c]) (frontier L i 1) = Some (Terminal c)"
  using single_symbol_returns [OF assms, of i] single_symbol_counted [OF assms, of i]
    single_symbol_scan [OF assms, of i]
  by (simp add: frontier_def)

theorem single_symbol_first_round_witness:
  "CHR ''b'' \<in> set (terminals StringLanguage_init)
   \<and> bottom_up_explicit StringLanguage_init (''''::string) ''b'' = Some (Terminal CHR ''b'')"
proof -
  have mem: "CHR ''b'' \<in> set (terminals StringLanguage_init)"
    by (simp add: StringLanguage_init_def)
  from single_symbol_first_round [OF mem, of "''''::string"] mem show ?thesis
    by simp
qed

text \<open>
  The loop body expands and collapses before it scans: for the target \<open>b\<close> the driver
  returns after one generator step, not after none.
\<close>

theorem single_symbol_counterexample:
  "bottom_up_explicit_counted StringLanguage_init (''''::string) ''b'' = Some (Terminal CHR ''b'', Suc 0)
   \<and> bottom_up_explicit_counted StringLanguage_init (''''::string) ''b'' \<noteq> Some (Terminal CHR ''b'', 0)"
  using single_symbol_counted [of "CHR ''b''" StringLanguage_init "''''::string"]
  by (simp add: StringLanguage_init_def)

text \<open>
  C10. The argument \<^verbatim>\<open>inputs\<close> is ignored: the filter returns the same list for any two
  values of it, and the driver has the same result for any two values of it, a run that
  never returns included.
\<close>

theorem inputs_ignored:
  "filter_observationally_equivalent L ps i1 = filter_observationally_equivalent L ps i2
   \<and> bottom_up_explicit L i1 out = bottom_up_explicit L i2 out"
  using search_loop_inputs [of L i1 out "initial L" i2]
  by (simp add: filter_observationally_equivalent_def bottom_up_explicit_def)

end
